theory Spec2Isabelle
  imports Main "HOL-Library.Word"
begin

section \<open>The chunk of \<^verbatim>\<open>hub/core/chunk.py\<close>\<close>

text \<open>
  A shallow embedding of the class \<^verbatim>\<open>Chunk\<close>. Python objects live in a store: a
  list of chunk values, an object's identity being its index. A reference
  (\<^verbatim>\<open>next_chunk\<close>, the elements of the tuple \<^verbatim>\<open>extend\<close> returns) is an index into
  the store, so that the aliasing between a chunk's successor link and the returned
  tuple is the aliasing of the program. Every method takes the store and returns it
  with its result; an exception is the \<open>Inl\<close> of the result, returned together with
  the store as the raise leaves it.

  Python's leading underscore cannot start an Isabelle name: \<^verbatim>\<open>_fill\<close> is \<open>fill\<close>,
  \<^verbatim>\<open>_update_headers\<close> is \<open>update_headers\<close>, and so on.
\<close>

subsection \<open>Data\<close>

type_synonym byte = "8 word"

type_synonym addr = nat

text \<open>
  The exceptions, one constructor for each raise of the file: the two
  \<^verbatim>\<open>Exception\<close>s of \<^verbatim>\<open>extend\<close>, the one of \<^verbatim>\<open>_spawn_child_chunk\<close>, the
  \<^verbatim>\<open>ValueError\<close> of \<^verbatim>\<open>_validate_incoming_buffer\<close>, the \<^verbatim>\<open>NotImplementedError\<close> of
  \<^verbatim>\<open>frombuffer\<close>, the division by zero of \<^verbatim>\<open>_min_chunks_required_for_num_bytes\<close>,
  and the error of the index encoders.
\<close>

datatype error =
    SealedChunkError
  | NoSpaceError
  | InvalidBatchError
  | InvalidRunError
  | AlreadySpawnedError
  | ZeroDivisionError
  | NotImplementedError

type_synonym shape_encoder = "(int list \<times> int) list"

type_synonym byte_positions_encoder = "(int \<times> int) list"

record chunk =
  index_shape_encoder :: shape_encoder
  index_byte_range_encoder :: byte_positions_encoder
  max_data_bytes :: int
  min_data_bytes_target :: int
  data :: "byte list"
  next_chunk :: "addr option"

type_synonym heap = "chunk list"

subsection \<open>The index encoders\<close>

text \<open>
  Modelled from the spec: the classes \<^verbatim>\<open>ShapeEncoder\<close> and \<^verbatim>\<open>BytePositionsEncoder\<close>
  are imported by \<^verbatim>\<open>chunk.py\<close> and their code is not among the sources. The spec
  (4.2, 4.3) gives each as a list of runs, created empty; an append adds one run and
  fails on a run length that is not positive, and for a shape also on an empty shape.
\<close>

definition ShapeEncoder :: shape_encoder where
  "ShapeEncoder = []"

definition BytePositionsEncoder :: byte_positions_encoder where
  "BytePositionsEncoder = []"

definition add_shape :: "shape_encoder \<Rightarrow> int list \<Rightarrow> int \<Rightarrow> error + shape_encoder" where
  "add_shape enc shape run_length =
     (if run_length \<le> 0 \<or> shape = [] then Inl InvalidRunError
      else Inr (enc @ [(shape, run_length)]))"

definition add_byte_position ::
  "byte_positions_encoder \<Rightarrow> int \<Rightarrow> int \<Rightarrow> error + byte_positions_encoder" where
  "add_byte_position enc num_bytes run_length =
     (if run_length \<le> 0 then Inl InvalidRunError
      else Inr (enc @ [(num_bytes, run_length)]))"

subsection \<open>Python slices\<close>

text \<open>
  \<^verbatim>\<open>xs[:k]\<close> and \<^verbatim>\<open>xs[k:]\<close>: a negative bound counts from the end, and a bound
  outside the sequence is clamped.
\<close>

definition py_slice_to :: "'a list \<Rightarrow> int \<Rightarrow> 'a list" where
  "py_slice_to xs k = take (nat (if k < 0 then int (length xs) + k else k)) xs"

definition py_slice_from :: "'a list \<Rightarrow> int \<Rightarrow> 'a list" where
  "py_slice_from xs k = drop (nat (if k < 0 then int (length xs) + k else k)) xs"

subsection \<open>The methods of \<^verbatim>\<open>Chunk\<close>\<close>

text \<open>\<^verbatim>\<open>__init__\<close>: the value of a new object.\<close>

definition Chunk :: "int \<Rightarrow> chunk" where
  "Chunk max_bytes =
     \<lparr> index_shape_encoder = ShapeEncoder,
       index_byte_range_encoder = BytePositionsEncoder,
       max_data_bytes = max_bytes,
       min_data_bytes_target = max_bytes div 2,
       data = [],
       next_chunk = None \<rparr>"

definition num_data_bytes :: "chunk \<Rightarrow> int" where
  "num_data_bytes c = int (length (data c))"

definition has_space :: "chunk \<Rightarrow> bool" where
  "has_space c \<longleftrightarrow> num_data_bytes c < min_data_bytes_target c"

text \<open>
  \<^verbatim>\<open>ceil(num_bytes / self.max_data_bytes)\<close>. Python divides the two integers as
  floats and rounds up; the model takes the exact ceiling of the quotient, which is
  what the float computation gives for byte counts below \<open>2 ^ 53\<close>. A capacity of
  zero raises \<^verbatim>\<open>ZeroDivisionError\<close>.
\<close>

definition min_chunks_required_for_num_bytes :: "chunk \<Rightarrow> int \<Rightarrow> error + int" where
  "min_chunks_required_for_num_bytes c num_bytes =
     (if max_data_bytes c = 0 then Inl ZeroDivisionError
      else Inr (- ((- num_bytes) div max_data_bytes c)))"

definition validate_incoming_buffer :: "int \<Rightarrow> int \<Rightarrow> error + unit" where
  "validate_incoming_buffer incoming_num_bytes num_samples =
     (if num_samples \<le> 0 then Inl InvalidBatchError
      else if incoming_num_bytes mod num_samples \<noteq> 0 then Inl InvalidBatchError
      else Inr ())"

definition update_headers ::
  "heap \<Rightarrow> addr \<Rightarrow> int \<Rightarrow> int \<Rightarrow> int list \<Rightarrow> (error + unit) \<times> heap" where
  "update_headers h self incoming_num_bytes num_samples sample_shape =
     (case validate_incoming_buffer incoming_num_bytes num_samples of
        Inl e \<Rightarrow> (Inl e, h)
      | Inr _ \<Rightarrow>
          let num_bytes_per_sample = incoming_num_bytes div num_samples in
          (case add_shape (index_shape_encoder (h ! self)) sample_shape num_samples of
             Inl e \<Rightarrow> (Inl e, h)
           | Inr shapes \<Rightarrow>
               let h1 = h[self := (h ! self)\<lparr>index_shape_encoder := shapes\<rparr>] in
               (case add_byte_position (index_byte_range_encoder (h1 ! self))
                       num_bytes_per_sample num_samples of
                  Inl e \<Rightarrow> (Inl e, h1)
                | Inr ranges \<Rightarrow>
                    (Inr (), h1[self := (h1 ! self)\<lparr>index_byte_range_encoder := ranges\<rparr>]))))"

definition fill :: "heap \<Rightarrow> addr \<Rightarrow> byte list \<Rightarrow> (error + int) \<times> heap" where
  "fill h self incoming_buffer =
     (let incoming_num_bytes = int (length incoming_buffer) in
      case min_chunks_required_for_num_bytes (h ! self) incoming_num_bytes of
        Inl e \<Rightarrow> (Inl e, h)
      | Inr min_chunks_for_incoming_bytes \<Rightarrow>
          (case min_chunks_required_for_num_bytes (h ! self)
                  (incoming_num_bytes + num_data_bytes (h ! self)) of
             Inl e \<Rightarrow> (Inl e, h)
           | Inr min_chunks_for_incoming_and_current_bytes \<Rightarrow>
               let incoming_num_bytes_that_will_fit =
                     min incoming_num_bytes
                       (max_data_bytes (h ! self) - num_data_bytes (h ! self));
                   h1 = (if min_chunks_for_incoming_bytes
                            = min_chunks_for_incoming_and_current_bytes
                         then h[self := (h ! self)\<lparr>data := data (h ! self) @
                                  py_slice_to incoming_buffer incoming_num_bytes_that_will_fit\<rparr>]
                         else h)
               in (Inr incoming_num_bytes_that_will_fit, h1)))"

text \<open>
  \<^verbatim>\<open>_spawn_child_chunk\<close>: the new object takes the next free index of the store, and
  the parent's link is set to it.
\<close>

definition spawn_child_chunk :: "heap \<Rightarrow> addr \<Rightarrow> (error + addr) \<times> heap" where
  "spawn_child_chunk h self =
     (if next_chunk (h ! self) \<noteq> None then (Inl AlreadySpawnedError, h)
      else
        let child = length h;
            h1 = h @ [Chunk (max_data_bytes (h ! self))]
        in (Inr child, h1[self := (h1 ! self)\<lparr>next_chunk := Some child\<rparr>]))"

text \<open>
  \<^verbatim>\<open>extend\<close>. The last argument is \<^verbatim>\<open>_leftover_buffer_from_previous_chunk\<close>. The
  tuple it returns is the list of the spawned chunks' indices.
\<close>

function extend ::
  "heap \<Rightarrow> addr \<Rightarrow> byte list \<Rightarrow> int \<Rightarrow> int list \<Rightarrow> bool \<Rightarrow> (error + addr list) \<times> heap" where
  "extend h self incoming_buffer num_samples sample_shape leftover_buffer_from_previous_chunk =
     (if next_chunk (h ! self) \<noteq> None then (Inl SealedChunkError, h)
      else if \<not> has_space (h ! self) then (Inl NoSpaceError, h)
      else
        let incoming_num_bytes = int (length incoming_buffer) in
        (case (if \<not> leftover_buffer_from_previous_chunk
               then update_headers h self incoming_num_bytes num_samples sample_shape
               else (Inr (), h)) of
           (Inl e, h1) \<Rightarrow> (Inl e, h1)
         | (Inr _, h1) \<Rightarrow>
             (case fill h1 self incoming_buffer of
                (Inl e, h2) \<Rightarrow> (Inl e, h2)
              | (Inr processed_num_bytes, h2) \<Rightarrow>
                  if processed_num_bytes \<ge> incoming_num_bytes then (Inr [], h2)
                  else
                    let forwarding_buffer = py_slice_from incoming_buffer processed_num_bytes in
                    (case spawn_child_chunk h2 self of
                       (Inl e, h3) \<Rightarrow> (Inl e, h3)
                     | (Inr child_chunk, h3) \<Rightarrow>
                         (case extend h3 child_chunk forwarding_buffer num_samples
                                 sample_shape True of
                            (Inl e, h4) \<Rightarrow> (Inl e, h4)
                          | (Inr child_chunk_children, h4) \<Rightarrow>
                              (Inr (child_chunk # child_chunk_children), h4))))))"
  by pat_completeness auto

subsection \<open>Serialisation\<close>

text \<open>
  \<^verbatim>\<open>tobytes\<close> hands the two encoders and the payload to \<^verbatim>\<open>numpy.savez\<close>;
  \<^verbatim>\<open>frombuffer\<close> calls \<^verbatim>\<open>Cachable.frombuffer\<close> and then raises
  \<^verbatim>\<open>NotImplementedError\<close>, its \<^verbatim>\<open>return instance\<close> standing after the raise.
  Neither \<^verbatim>\<open>numpy\<close> nor \<^verbatim>\<open>Cachable\<close> is among the sources: both functions are
  parameters. An exception of the superclass call passes through.
\<close>

definition tobytes ::
  "(shape_encoder \<Rightarrow> byte_positions_encoder \<Rightarrow> byte list \<Rightarrow> byte list) \<Rightarrow> chunk \<Rightarrow> byte list" where
  "tobytes savez c = savez (index_shape_encoder c) (index_byte_range_encoder c) (data c)"

definition frombuffer :: "(byte list \<Rightarrow> error + chunk) \<Rightarrow> byte list \<Rightarrow> error + chunk" where
  "frombuffer super_frombuffer buffer =
     (case super_frombuffer buffer of
        Inl e \<Rightarrow> Inl e
      | Inr inst \<Rightarrow> Inl NotImplementedError)"

subsection \<open>Predicates of the properties\<close>

text \<open>The capacity bound of one chunk, and of every chunk of a store.\<close>

definition capacity_ok :: "chunk \<Rightarrow> bool" where
  "capacity_ok c \<longleftrightarrow> num_data_bytes c \<le> max_data_bytes c"

definition capacity_invariant :: "heap \<Rightarrow> bool" where
  "capacity_invariant h \<longleftrightarrow> list_all capacity_ok h"

text \<open>
  What \<^verbatim>\<open>extend\<close> has done to the store when it reaches \<^verbatim>\<open>_fill\<close>: nothing on a
  continuation, the header update otherwise.
\<close>

definition headers_done ::
  "heap \<Rightarrow> addr \<Rightarrow> byte list \<Rightarrow> int \<Rightarrow> int list \<Rightarrow> bool \<Rightarrow> heap \<Rightarrow> bool" where
  "headers_done h a buf n s l h1 \<longleftrightarrow>
     (if l then h1 = h else update_headers h a (int (length buf)) n s = (Inr (), h1))"

text \<open>
  A chunk that has space by its target although its payload has reached its capacity.
  \<^verbatim>\<open>__init__\<close> builds none (the target is half the capacity); the record allows
  one, and the termination argument of \<^verbatim>\<open>extend\<close> has to name it.
\<close>

definition ill_formed :: "chunk \<Rightarrow> bool" where
  "ill_formed c \<longleftrightarrow> has_space c \<and> \<not> num_data_bytes c < max_data_bytes c"

text \<open>
  The payload of a chunk followed by the payloads of the chunks a call returned, in
  the order of the tuple.
\<close>

definition stored_bytes :: "heap \<Rightarrow> addr \<Rightarrow> addr list \<Rightarrow> byte list" where
  "stored_bytes h self spawned = data (h ! self) @ concat (map (\<lambda>k. data (h ! k)) spawned)"

text \<open>Every chunk of a returned tuple has the capacity \<open>m\<close>.\<close>

definition spawned_with_capacity :: "heap \<Rightarrow> addr list \<Rightarrow> int \<Rightarrow> bool" where
  "spawned_with_capacity h spawned m \<longleftrightarrow> list_all (\<lambda>k. max_data_bytes (h ! k) = m) spawned"

text \<open>
  The test of \<^verbatim>\<open>_fill\<close>: as many chunks are needed for the incoming bytes alone as
  for the incoming bytes together with the payload of the chunk.
\<close>

definition counts_agree :: "chunk \<Rightarrow> byte list \<Rightarrow> bool" where
  "counts_agree c buf \<longleftrightarrow>
     min_chunks_required_for_num_bytes c (int (length buf))
       = min_chunks_required_for_num_bytes c (int (length buf) + num_data_bytes c)"

text \<open>The target is the one \<^verbatim>\<open>__init__\<close> computes from the capacity.\<close>

definition target_ok :: "chunk \<Rightarrow> bool" where
  "target_ok c \<longleftrightarrow> min_data_bytes_target c = max_data_bytes c div 2"

subsection \<open>A caller\<close>

text \<open>
  A caller that issues one new batch after another on the same chunk and goes on
  after an exception: each call runs on the store the call before it left.
\<close>

fun extend_calls :: "heap \<Rightarrow> addr \<Rightarrow> (byte list \<times> int \<times> int list) list \<Rightarrow> heap" where
  "extend_calls h self [] = h"
| "extend_calls h self ((buf, n, s) # calls) =
     extend_calls (snd (extend h self buf n s False)) self calls"

subsection \<open>Example data\<close>

text \<open>The bytes \<open>0, 1, \<dots>, n - 1\<close> (modulo 256): a buffer whose positions can be told apart.\<close>

definition bytes_upto :: "nat \<Rightarrow> byte list" where
  "bytes_upto n = map of_nat [0..<n]"

text \<open>
  A container format and a superclass loader that do round-trip a chunk of capacity
  100 with empty indexes: the blob is the payload itself.
\<close>

definition payload_savez ::
  "shape_encoder \<Rightarrow> byte_positions_encoder \<Rightarrow> byte list \<Rightarrow> byte list" where
  "payload_savez shapes ranges payload = payload"

definition payload_frombuffer :: "byte list \<Rightarrow> error + chunk" where
  "payload_frombuffer buffer = Inr ((Chunk 100)\<lparr>data := buffer\<rparr>)"

subsection \<open>Why \<^verbatim>\<open>extend\<close> terminates\<close>

text \<open>
  \<^verbatim>\<open>extend\<close> calls itself on the child it spawned, with the bytes it did not
  process. A chunk that has space and room below its capacity processes at least one
  byte, so the buffer gets shorter. The record allows a chunk whose
  \<open>min_data_bytes_target\<close> is above its capacity (no constructor builds one); such a
  chunk may forward the whole buffer, but to a child that \<^verbatim>\<open>__init__\<close> built, which
  is not of that kind.
\<close>

lemma nth_update_cases:
  "(xs[i := x]) ! j = (if i = j \<and> i < length xs then x else xs ! j)"
  by (cases "i < length xs") (auto simp: nth_list_update list_update_beyond)

lemma update_headers_cell:
  assumes "update_headers h a n k s = (r, h1)"
  shows "data (h1 ! a) = data (h ! a)"
    and "max_data_bytes (h1 ! a) = max_data_bytes (h ! a)"
    and "min_data_bytes_target (h1 ! a) = min_data_bytes_target (h ! a)"
    and "next_chunk (h1 ! a) = next_chunk (h ! a)"
proof -
  have "data (h1 ! a) = data (h ! a) \<and> max_data_bytes (h1 ! a) = max_data_bytes (h ! a)
    \<and> min_data_bytes_target (h1 ! a) = min_data_bytes_target (h ! a)
    \<and> next_chunk (h1 ! a) = next_chunk (h ! a)"
    using assms
    by (auto simp: update_headers_def Let_def nth_update_cases split: sum.splits)
  then show "data (h1 ! a) = data (h ! a)"
    and "max_data_bytes (h1 ! a) = max_data_bytes (h ! a)"
    and "min_data_bytes_target (h1 ! a) = min_data_bytes_target (h ! a)"
    and "next_chunk (h1 ! a) = next_chunk (h ! a)" by simp_all
qed

lemma fill_processed:
  "fill h a buf = (Inr p, h2) \<Longrightarrow>
     p = min (int (length buf)) (max_data_bytes (h ! a) - num_data_bytes (h ! a))"
  by (auto simp: fill_def Let_def split: sum.splits)

lemma spawn_child_chunk_child:
  "spawn_child_chunk h a = (Inr c, h3) \<Longrightarrow> \<not> ill_formed (h3 ! c)"
  by (cases "a = length h")
     (auto simp: spawn_child_chunk_def Let_def ill_formed_def has_space_def
        num_data_bytes_def Chunk_def nth_append split: if_splits)

lemma py_slice_from_length: "length (py_slice_from xs k) \<le> length xs"
  by (simp add: py_slice_from_def)

lemma py_slice_from_shorter:
  "0 < k \<Longrightarrow> xs \<noteq> [] \<Longrightarrow> length (py_slice_from xs k) < length xs"
  by (simp add: py_slice_from_def)

termination extend
proof (relation "measures [\<lambda>(h, self, buf, n, s, l). length buf,
    \<lambda>(h, self, buf, n, s, l). if ill_formed (h ! self) then 1 else 0]", goal_cases)
  case 1
  then show ?case by simp
next
  case (2 h self buf n s l nb r1 h1 u p2 h2 p xc c h3 child)
  have same: "data (h1 ! self) = data (h ! self)
      \<and> max_data_bytes (h1 ! self) = max_data_bytes (h ! self)"
  proof (cases l)
    case True
    with 2 show ?thesis by simp
  next
    case False
    with 2 have "update_headers h self nb n s = (r1, h1)" by simp
    then show ?thesis by (simp add: update_headers_cell)
  qed
  from 2 have "fill h1 self buf = (Inr p, h2)" by simp
  then have p: "p = min nb (max_data_bytes (h ! self) - num_data_bytes (h ! self))"
    using same 2(3) fill_processed [of h1 self buf p h2] by (simp add: num_data_bytes_def)
  from 2 have "spawn_child_chunk h2 self = (Inr child, h3)" by simp
  then have child: "\<not> ill_formed (h3 ! child)" by (rule spawn_child_chunk_child)
  have le: "length xc \<le> length buf"
    using 2 by (simp add: py_slice_from_length)
  show ?case
  proof (cases "ill_formed (h ! self)")
    case True
    with child le show ?thesis by auto
  next
    case False
    with 2 have "0 < max_data_bytes (h ! self) - num_data_bytes (h ! self)"
      by (simp add: ill_formed_def)
    with p 2 have "0 < p" "buf \<noteq> []" by auto
    then have "length xc < length buf"
      using 2 by (simp add: py_slice_from_shorter)
    then show ?thesis by simp
  qed
qed

declare extend.simps [simp del]

subsection \<open>One call of \<^verbatim>\<open>extend\<close>, case by case\<close>

text \<open>
  The ways a call of \<^verbatim>\<open>extend\<close> can end, with the store each intermediate step
  leaves, and the induction principle that follows the recursion on the child.
\<close>

lemma extend_cases [consumes 1, case_names sealed no_space header_error fill_error all_stored spawn_error forwarded]:
  assumes "extend h a buf n s l = (r, h')"
  obtains
    (sealed) "next_chunk (h ! a) \<noteq> None" "r = Inl SealedChunkError" "h' = h"
  | (no_space) "next_chunk (h ! a) = None" "\<not> has_space (h ! a)" "r = Inl NoSpaceError" "h' = h"
  | (header_error) e where "next_chunk (h ! a) = None" "has_space (h ! a)" "\<not> l"
      "update_headers h a (int (length buf)) n s = (Inl e, h')" "r = Inl e"
  | (fill_error) h1 e where "next_chunk (h ! a) = None" "has_space (h ! a)"
      "headers_done h a buf n s l h1" "fill h1 a buf = (Inl e, h')" "r = Inl e"
  | (all_stored) h1 p where "next_chunk (h ! a) = None" "has_space (h ! a)"
      "headers_done h a buf n s l h1" "fill h1 a buf = (Inr p, h')" "int (length buf) \<le> p" "r = Inr []"
  | (spawn_error) h1 p h2 e where "next_chunk (h ! a) = None" "has_space (h ! a)"
      "headers_done h a buf n s l h1" "fill h1 a buf = (Inr p, h2)" "p < int (length buf)"
      "spawn_child_chunk h2 a = (Inl e, h')" "r = Inl e"
  | (forwarded) h1 p h2 child h3 r4 where "next_chunk (h ! a) = None" "has_space (h ! a)"
      "headers_done h a buf n s l h1" "fill h1 a buf = (Inr p, h2)" "p < int (length buf)"
      "spawn_child_chunk h2 a = (Inr child, h3)"
      "extend h3 child (py_slice_from buf p) n s True = (r4, h')"
      "r = (case r4 of Inl e \<Rightarrow> Inl e | Inr children \<Rightarrow> Inr (child # children))"
proof -
  note u = assms [unfolded extend.simps [of h a buf n s l]]
  show thesis
    using u that
    by (auto simp: headers_done_def Let_def split: if_splits prod.splits sum.splits)
qed


lemma extend_induct [case_names call]:
  assumes "\<And>h a buf n s l.
     (\<And>h1 p h2 child h3.
        next_chunk (h ! a) = None \<Longrightarrow> has_space (h ! a) \<Longrightarrow>
        headers_done h a buf n s l h1 \<Longrightarrow> fill h1 a buf = (Inr p, h2) \<Longrightarrow>
        p < int (length buf) \<Longrightarrow> spawn_child_chunk h2 a = (Inr child, h3) \<Longrightarrow>
        P h3 child (py_slice_from buf p) n s True)
     \<Longrightarrow> P h a buf n s l"
  shows "P h a buf n s l"
proof (induction h a buf n s l rule: extend.induct)
  case (1 h a buf n s l)
  show ?case
  proof (rule assms)
    fix h1 p h2 child h3
    assume "next_chunk (h ! a) = None" "has_space (h ! a)"
      "headers_done h a buf n s l h1" "fill h1 a buf = (Inr p, h2)"
      "p < int (length buf)" "spawn_child_chunk h2 a = (Inr child, h3)"
    then show "P h3 child (py_slice_from buf p) n s True"
      using "1.IH" [of "int (length buf)" "Inr ()" h1 "()" "Inr p" h2 p "py_slice_from buf p" "Inr child" h3 child]
      by (auto simp: headers_done_def split: if_splits)
  qed
qed


lemma update_headers_store:
  assumes "update_headers h a nb n s = (r, h1)"
  shows "length h1 = length h"
    and "b \<noteq> a \<Longrightarrow> h1 ! b = h ! b"
    and "r = Inl e \<Longrightarrow> h1 = h"
  using assms
  by (auto simp: update_headers_def Let_def add_byte_position_def validate_incoming_buffer_def
      split: sum.splits if_splits)

lemma headers_done_store:
  assumes "headers_done h a buf n s l h1"
  shows "length h1 = length h"
    and "b \<noteq> a \<Longrightarrow> h1 ! b = h ! b"
    and "data (h1 ! a) = data (h ! a)"
    and "max_data_bytes (h1 ! a) = max_data_bytes (h ! a)"
    and "min_data_bytes_target (h1 ! a) = min_data_bytes_target (h ! a)"
    and "next_chunk (h1 ! a) = next_chunk (h ! a)"
  using assms update_headers_store [of h a "int (length buf)" n s "Inr ()" h1]
    update_headers_cell [of h a "int (length buf)" n s "Inr ()" h1]
  by (auto simp: headers_done_def split: if_splits)

lemma fill_store:
  assumes "fill h a buf = (r, h2)"
  shows "length h2 = length h"
    and "b \<noteq> a \<Longrightarrow> h2 ! b = h ! b"
    and "max_data_bytes (h2 ! a) = max_data_bytes (h ! a)"
    and "min_data_bytes_target (h2 ! a) = min_data_bytes_target (h ! a)"
    and "next_chunk (h2 ! a) = next_chunk (h ! a)"
    and "index_shape_encoder (h2 ! a) = index_shape_encoder (h ! a)"
    and "index_byte_range_encoder (h2 ! a) = index_byte_range_encoder (h ! a)"
    and "r = Inl e \<Longrightarrow> h2 = h \<and> e = ZeroDivisionError"
  using assms
  by (auto simp: fill_def Let_def min_chunks_required_for_num_bytes_def nth_update_cases
      split: sum.splits if_splits)

lemma fill_capacity:
  assumes "fill h a buf = (r, h2)" "capacity_ok (h ! a)"
  shows "capacity_ok (h2 ! a)"
  using assms
  by (auto simp: fill_def Let_def min_chunks_required_for_num_bytes_def nth_update_cases
      capacity_ok_def num_data_bytes_def py_slice_to_def
      split: sum.splits if_splits)

lemma spawn_child_chunk_store:
  assumes "spawn_child_chunk h a = (Inr child, h3)" "a < length h"
  shows "child = length h"
    and "length h3 = Suc (length h)"
    and "h3 ! child = Chunk (max_data_bytes (h ! a))"
    and "h3 ! a = (h ! a)\<lparr>next_chunk := Some child\<rparr>"
    and "b < length h \<Longrightarrow> b \<noteq> a \<Longrightarrow> h3 ! b = h ! b"
  using assms
  by (auto simp: spawn_child_chunk_def Let_def nth_update_cases nth_append split: if_splits)

lemma spawn_child_chunk_error:
  "spawn_child_chunk h a = (Inl e, h3) \<Longrightarrow> h3 = h \<and> e = AlreadySpawnedError \<and> next_chunk (h ! a) \<noteq> None"
  by (auto simp: spawn_child_chunk_def Let_def split: if_splits)


lemma update_headers_error:
  "update_headers h a nb n s = (Inl e, h1) \<Longrightarrow> h1 = h"
  by (auto simp: update_headers_def Let_def add_byte_position_def validate_incoming_buffer_def
      split: sum.splits if_splits)

lemma fill_cell:
  "fill h a buf = (r, h2) \<Longrightarrow> h2 ! a = (h ! a)\<lparr>data := data (h2 ! a)\<rparr>"
  by (auto simp: fill_def Let_def nth_update_cases split: sum.splits if_splits)

lemma headers_done_leftover:
  "headers_done h a buf n s True h1 \<Longrightarrow> h1 = h"
  by (simp add: headers_done_def)

lemma extend_cases2 [consumes 1, case_names returns forwarded]:
  assumes "extend h a buf n s l = (r, h')"
  obtains
    (returns) "length h' = length h" "\<And>b. b \<noteq> a \<Longrightarrow> h' ! b = h ! b"
      "max_data_bytes (h' ! a) = max_data_bytes (h ! a)"
      "min_data_bytes_target (h' ! a) = min_data_bytes_target (h ! a)"
      "next_chunk (h' ! a) = next_chunk (h ! a)"
      "capacity_ok (h ! a) \<Longrightarrow> capacity_ok (h' ! a)"
      "l \<Longrightarrow> h' ! a = (h ! a)\<lparr>data := data (h' ! a)\<rparr>"
      "r = Inr [] \<and> next_chunk (h ! a) = None \<and> has_space (h ! a)
         \<or> (\<exists>e. r = Inl e \<and> (l \<longrightarrow> e \<noteq> InvalidBatchError))"
  | (forwarded) h1 p h2 child h3 r4 where "next_chunk (h ! a) = None" "has_space (h ! a)"
      "headers_done h a buf n s l h1" "fill h1 a buf = (Inr p, h2)" "p < int (length buf)"
      "spawn_child_chunk h2 a = (Inr child, h3)"
      "extend h3 child (py_slice_from buf p) n s True = (r4, h')"
      "r = (case r4 of Inl e \<Rightarrow> Inl e | Inr children \<Rightarrow> Inr (child # children))"
  using assms
proof (cases rule: extend_cases)
  case sealed
  then show ?thesis using returns by simp
next
  case no_space
  then show ?thesis using returns by simp
next
  case (header_error e)
  then have "h' = h" by (simp add: update_headers_error)
  with header_error show ?thesis using returns by simp
next
  case (fill_error h1 e)
  note hd = headers_done_store [OF fill_error(3)]
  note fl = fill_store [OF fill_error(4)]
  have "l \<Longrightarrow> h1 = h" using fill_error(3) by (simp add: headers_done_def)
  then have cell: "l \<Longrightarrow> h' ! a = (h ! a)\<lparr>data := data (h' ! a)\<rparr>"
    using fill_cell [OF fill_error(4)]  by simp
  have "capacity_ok (h ! a) \<Longrightarrow> capacity_ok (h' ! a)"
    using fill_capacity [OF fill_error(4)] hd by (simp add: capacity_ok_def num_data_bytes_def)
  then show ?thesis using returns hd fl fill_error cell by simp
next
  case (all_stored h1 p)
  note hd = headers_done_store [OF all_stored(3)]
  note fl = fill_store [OF all_stored(4)]
  have "l \<Longrightarrow> h1 = h" using all_stored(3) by (simp add: headers_done_def)
  then have cell: "l \<Longrightarrow> h' ! a = (h ! a)\<lparr>data := data (h' ! a)\<rparr>"
    using fill_cell [OF all_stored(4)]  by simp
  have "capacity_ok (h ! a) \<Longrightarrow> capacity_ok (h' ! a)"
    using fill_capacity [OF all_stored(4)] hd by (simp add: capacity_ok_def num_data_bytes_def)
  then show ?thesis using returns hd fl all_stored cell by simp
next
  case (spawn_error h1 p h2 e)
  note hd = headers_done_store [OF spawn_error(3)]
  note fl = fill_store [OF spawn_error(4)]
  note sp = spawn_child_chunk_error [OF spawn_error(6)]
  have "l \<Longrightarrow> h1 = h" using spawn_error(3) by (simp add: headers_done_def)
  then have cell: "l \<Longrightarrow> h' ! a = (h ! a)\<lparr>data := data (h' ! a)\<rparr>"
    using fill_cell [OF spawn_error(4)] sp by simp
  have "capacity_ok (h ! a) \<Longrightarrow> capacity_ok (h' ! a)"
    using fill_capacity [OF spawn_error(4)] hd sp by (simp add: capacity_ok_def num_data_bytes_def)
  then show ?thesis using returns hd fl sp spawn_error cell by simp
next
  case (forwarded h1 p h2 child h3 r4)
  then show ?thesis using that(2) by blast
qed


lemma forwarded_store:
  assumes "a < length h" "headers_done h a buf n s l h1" "fill h1 a buf = (Inr p, h2)"
    "spawn_child_chunk h2 a = (Inr child, h3)"
  shows "child = length h"
    and "length h3 = Suc (length h)"
    and "h3 ! child = Chunk (max_data_bytes (h ! a))"
    and "\<And>b. b < length h \<Longrightarrow> b \<noteq> a \<Longrightarrow> h3 ! b = h ! b"
    and "h3 ! a = (h2 ! a)\<lparr>next_chunk := Some child\<rparr>"
    and "max_data_bytes (h2 ! a) = max_data_bytes (h ! a)"
    and "min_data_bytes_target (h2 ! a) = min_data_bytes_target (h ! a)"
    and "capacity_ok (h ! a) \<Longrightarrow> capacity_ok (h2 ! a)"
    and "l \<Longrightarrow> h2 ! a = (h ! a)\<lparr>data := data (h2 ! a)\<rparr>"
proof -
  note hd = headers_done_store [OF assms(2)]
  note fl = fill_store [OF assms(3)]
  have a2: "a < length h2" using assms(1) hd fl by simp
  note sp = spawn_child_chunk_store [OF assms(4) a2]
  show "child = length h" using sp hd fl by simp
  show "length h3 = Suc (length h)" using sp hd fl by simp
  show "h3 ! child = Chunk (max_data_bytes (h ! a))" using sp hd fl by simp
  show "h3 ! a = (h2 ! a)\<lparr>next_chunk := Some child\<rparr>" using sp by simp
  show "max_data_bytes (h2 ! a) = max_data_bytes (h ! a)" using hd fl by simp
  show "min_data_bytes_target (h2 ! a) = min_data_bytes_target (h ! a)" using hd fl by simp
  show "capacity_ok (h ! a) \<Longrightarrow> capacity_ok (h2 ! a)"
    using fill_capacity [OF assms(3)] hd by (simp add: capacity_ok_def num_data_bytes_def)
  show "l \<Longrightarrow> h2 ! a = (h ! a)\<lparr>data := data (h2 ! a)\<rparr>"
    using fill_cell [OF assms(3)] assms(2) by (simp add: headers_done_def)
  show "\<And>b. b < length h \<Longrightarrow> b \<noteq> a \<Longrightarrow> h3 ! b = h ! b"
    using sp(5) hd fl by simp
qed


subsection \<open>What a call leaves in the store\<close>

text \<open>
  By induction on the recursion of \<^verbatim>\<open>extend\<close>: the chunks that existed before the
  call and are not its receiver are untouched, the receiver keeps its capacity and
  its target (and, on a continuation, its indexes), and the chunks the call adds are
  built by \<^verbatim>\<open>__init__\<close> with the receiver's capacity and never get a header.
\<close>

lemma extend_frame:
  "extend h a buf n s l = (r, h') \<Longrightarrow> a < length h \<Longrightarrow>
     length h \<le> length h'
     \<and> (\<forall>b<length h. b \<noteq> a \<longrightarrow> h' ! b = h ! b)
     \<and> max_data_bytes (h' ! a) = max_data_bytes (h ! a)
     \<and> min_data_bytes_target (h' ! a) = min_data_bytes_target (h ! a)
     \<and> (l \<longrightarrow> index_shape_encoder (h' ! a) = index_shape_encoder (h ! a)
            \<and> index_byte_range_encoder (h' ! a) = index_byte_range_encoder (h ! a))"
proof (induction h a buf n s l arbitrary: r h' rule: extend_induct)
  case (call h a buf n s l)
  from call.prems(1) show ?case
  proof (cases rule: extend_cases2)
    case returns
    have "l \<longrightarrow> index_shape_encoder (h' ! a) = index_shape_encoder (h ! a)
            \<and> index_byte_range_encoder (h' ! a) = index_byte_range_encoder (h ! a)"
    proof
      assume l
      from returns(7) [OF this]
      have "index_shape_encoder (h' ! a) = index_shape_encoder ((h ! a)\<lparr>data := data (h' ! a)\<rparr>)"
        "index_byte_range_encoder (h' ! a) = index_byte_range_encoder ((h ! a)\<lparr>data := data (h' ! a)\<rparr>)"
        by simp_all
      then show "index_shape_encoder (h' ! a) = index_shape_encoder (h ! a)
            \<and> index_byte_range_encoder (h' ! a) = index_byte_range_encoder (h ! a)"
        by simp
    qed
    with returns(1-4) show ?thesis by simp
  next
    case (forwarded h1 p h2 child h3 r4)
    note fw = forwarded_store [OF call.prems(2) forwarded(3,4,6)]
    have c3: "child < length h3" using fw by simp
    from call.IH [OF forwarded(1-6) forwarded(7) c3]
    have ih: "length h3 \<le> length h'" "\<forall>b<length h3. b \<noteq> child \<longrightarrow> h' ! b = h3 ! b"
      by simp_all
    have ac: "a \<noteq> child" "a < length h3" using fw call.prems(2) by simp_all
    then have cell: "h' ! a = (h2 ! a)\<lparr>next_chunk := Some child\<rparr>" using ih fw by simp
    have others: "\<forall>b<length h. b \<noteq> a \<longrightarrow> h' ! b = h ! b"
    proof (intro allI impI)
      fix b assume b: "b < length h" "b \<noteq> a"
      then have "h' ! b = h3 ! b" using ih fw by simp
      also have "\<dots> = h ! b" using fw(4) b by simp
      finally show "h' ! b = h ! b" .
    qed
    have idx: "l \<longrightarrow> index_shape_encoder (h' ! a) = index_shape_encoder (h ! a)
            \<and> index_byte_range_encoder (h' ! a) = index_byte_range_encoder (h ! a)"
    proof
      assume l
      from fw(9) [OF this] have "h2 ! a = (h ! a)\<lparr>data := data (h2 ! a)\<rparr>" .
      then have "index_shape_encoder (h2 ! a) = index_shape_encoder ((h ! a)\<lparr>data := data (h2 ! a)\<rparr>)"
        "index_byte_range_encoder (h2 ! a) = index_byte_range_encoder ((h ! a)\<lparr>data := data (h2 ! a)\<rparr>)"
        by simp_all
      then show "index_shape_encoder (h' ! a) = index_shape_encoder (h ! a)
            \<and> index_byte_range_encoder (h' ! a) = index_byte_range_encoder (h ! a)"
        using cell by simp
    qed
    from cell others idx show ?thesis
      using ih fw by simp
  qed
qed

lemma extend_children:
  "extend h a buf n s l = (r, h') \<Longrightarrow> a < length h \<Longrightarrow>
     (\<forall>b. length h \<le> b \<longrightarrow> b < length h' \<longrightarrow>
        max_data_bytes (h' ! b) = max_data_bytes (h ! a)
        \<and> min_data_bytes_target (h' ! b) = max_data_bytes (h ! a) div 2
        \<and> index_shape_encoder (h' ! b) = []
        \<and> index_byte_range_encoder (h' ! b) = [])"
proof (induction h a buf n s l arbitrary: r h' rule: extend_induct)
  case (call h a buf n s l)
  from call.prems(1) show ?case
  proof (cases rule: extend_cases2)
    case returns
    then show ?thesis by simp
  next
    case (forwarded h1 p h2 child h3 r4)
    note fw = forwarded_store [OF call.prems(2) forwarded(3,4,6)]
    have c3: "child < length h3" using fw by simp
    note fr = extend_frame [OF forwarded(7) c3]
    note ih = call.IH [OF forwarded(1-6) forwarded(7) c3]
    show ?thesis
    proof (intro allI impI)
      fix b assume b: "length h \<le> b" "b < length h'"
      show "max_data_bytes (h' ! b) = max_data_bytes (h ! a)
        \<and> min_data_bytes_target (h' ! b) = max_data_bytes (h ! a) div 2
        \<and> index_shape_encoder (h' ! b) = []
        \<and> index_byte_range_encoder (h' ! b) = []"
      proof (cases "b = child")
        case True
        then show ?thesis using fr fw
          by (simp add: Chunk_def ShapeEncoder_def BytePositionsEncoder_def)
      next
        case False
        with b fw have "length h3 \<le> b" "b < length h'" by simp_all
        with ih have "max_data_bytes (h' ! b) = max_data_bytes (h3 ! child)
          \<and> min_data_bytes_target (h' ! b) = max_data_bytes (h3 ! child) div 2
          \<and> index_shape_encoder (h' ! b) = []
          \<and> index_byte_range_encoder (h' ! b) = []" by blast
        then show ?thesis using fw by (simp add: Chunk_def)
      qed
    qed
  qed
qed

lemma Chunk_capacity_ok: "0 \<le> m \<Longrightarrow> capacity_ok (Chunk m)"
  by (simp add: capacity_ok_def num_data_bytes_def Chunk_def)

lemma capacity_ok_nonneg: "capacity_ok c \<Longrightarrow> 0 \<le> max_data_bytes c"
  by (simp add: capacity_ok_def num_data_bytes_def)

lemma capacity_ok_next: "capacity_ok (c\<lparr>next_chunk := k\<rparr>) = capacity_ok c"
  by (simp add: capacity_ok_def num_data_bytes_def)

lemma extend_capacity:
  "extend h a buf n s l = (r, h') \<Longrightarrow> a < length h \<Longrightarrow> capacity_ok (h ! a) \<Longrightarrow>
     capacity_ok (h' ! a)
     \<and> (\<forall>b. length h \<le> b \<longrightarrow> b < length h' \<longrightarrow> capacity_ok (h' ! b))"
proof (induction h a buf n s l arbitrary: r h' rule: extend_induct)
  case (call h a buf n s l)
  from call.prems(1) show ?case
  proof (cases rule: extend_cases2)
    case returns
    with call.prems(3) show ?thesis by simp
  next
    case (forwarded h1 p h2 child h3 r4)
    note fw = forwarded_store [OF call.prems(2) forwarded(3,4,6)]
    have c3: "child < length h3" using fw by simp
    have ck: "capacity_ok (h3 ! child)"
      using fw(3) capacity_ok_nonneg [OF call.prems(3)] by (simp add: Chunk_capacity_ok)
    note fr = extend_frame [OF forwarded(7) c3]
    note ih = call.IH [OF forwarded(1-6) forwarded(7) c3 ck]
    have ac: "a \<noteq> child" "a < length h3" using fw call.prems(2) by simp_all
    with fr have "h' ! a = h3 ! a" by simp
    then have "capacity_ok (h' ! a)"
      using fw(5) fw(8) [OF call.prems(3)] by (simp add: capacity_ok_next)
    moreover have "\<forall>b. length h \<le> b \<longrightarrow> b < length h' \<longrightarrow> capacity_ok (h' ! b)"
    proof (intro allI impI)
      fix b assume b: "length h \<le> b" "b < length h'"
      show "capacity_ok (h' ! b)"
      proof (cases "b = child")
        case True
        with ih show ?thesis by simp
      next
        case False
        with b fw have "length h3 \<le> b" "b < length h'" by simp_all
        with ih show ?thesis by blast
      qed
    qed
    ultimately show ?thesis by simp
  qed
qed

lemma extend_leftover_error:
  "extend h a buf n s True = (r, h') \<Longrightarrow> r \<noteq> Inl InvalidBatchError"
proof (induction h a buf n s "True" arbitrary: r h' rule: extend_induct)
  case (call h a buf n s)
  from call.prems(1) show ?case
  proof (cases rule: extend_cases2)
    case returns
    then show ?thesis by auto
  next
    case (forwarded h1 p h2 child h3 r4)
    from call.hyps [OF forwarded(1-6) forwarded(7)] forwarded(8)
    show ?thesis by (auto split: sum.splits)
  qed
qed

lemma extend_spawned:
  "extend h a buf n s l = (Inr spawned, h') \<Longrightarrow> a < length h \<Longrightarrow>
     spawned = [length h..<length h']"
proof (induction h a buf n s l arbitrary: spawned h' rule: extend_induct)
  case (call h a buf n s l)
  from call.prems(1) show ?case
  proof (cases rule: extend_cases2)
    case returns
    then show ?thesis by simp
  next
    case (forwarded h1 p h2 child h3 r4)
    note fw = forwarded_store [OF call.prems(2) forwarded(3,4,6)]
    have c3: "child < length h3" using fw by simp
    from forwarded(8) obtain children where r4: "r4 = Inr children" "spawned = child # children"
      by (auto split: sum.splits)
    from call.IH [OF forwarded(1-6) forwarded(7) [unfolded r4(1)] c3]
    have "children = [length h3..<length h']" .
    moreover have "length h3 \<le> length h'"
      using extend_frame [OF forwarded(7) c3] by simp
    ultimately show ?thesis using r4 fw by (simp add: upt_conv_Cons)
  qed
qed

lemma capacity_invariant_nth:
  "capacity_invariant h \<longleftrightarrow> (\<forall>b<length h. capacity_ok (h ! b))"
  by (simp add: capacity_invariant_def list_all_length)

lemma capacity_ok_cong:
  "data c' = data c \<Longrightarrow> max_data_bytes c' = max_data_bytes c \<Longrightarrow>
     capacity_ok c' = capacity_ok c"
  by (simp add: capacity_ok_def num_data_bytes_def)

lemma update_headers_capacity:
  assumes "capacity_invariant h"
  shows "capacity_invariant (snd (update_headers h a nb n s))"
proof -
  obtain r h1 where u: "update_headers h a nb n s = (r, h1)" by (cases "update_headers h a nb n s")
  note st = update_headers_store [OF u] update_headers_cell [OF u]
  have "capacity_ok (h1 ! b)" if "b < length h1" for b
  proof (cases "b = a")
    case True
    with that assms st show ?thesis
      by (simp add: capacity_invariant_nth capacity_ok_cong [of "h1 ! a" "h ! a"])
  next
    case False
    with that assms st show ?thesis by (simp add: capacity_invariant_nth)
  qed
  then show ?thesis using u by (simp add: capacity_invariant_nth)
qed

lemma fill_capacity_invariant:
  assumes "capacity_invariant h"
  shows "capacity_invariant (snd (fill h a buf))"
proof -
  obtain r h2 where f: "fill h a buf = (r, h2)" by (cases "fill h a buf")
  note st = fill_store [OF f]
  have "capacity_ok (h2 ! b)" if "b < length h2" for b
  proof (cases "b = a")
    case True
    with that assms st fill_capacity [OF f] show ?thesis
      by (simp add: capacity_invariant_nth)
  next
    case False
    with that assms st show ?thesis by (simp add: capacity_invariant_nth)
  qed
  then show ?thesis using f by (simp add: capacity_invariant_nth)
qed

lemma spawn_child_chunk_capacity:
  assumes "capacity_invariant h" "a < length h"
  shows "capacity_invariant (snd (spawn_child_chunk h a))"
proof (cases "next_chunk (h ! a) = None")
  case False
  with assms show ?thesis by (simp add: spawn_child_chunk_def)
next
  case True
  then obtain h3 where sp: "spawn_child_chunk h a = (Inr (length h), h3)"
    by (simp add: spawn_child_chunk_def Let_def)
  note st = spawn_child_chunk_store [OF sp assms(2)]
  from assms have ca: "capacity_ok (h ! a)" by (simp add: capacity_invariant_nth)
  have "capacity_ok (h3 ! b)" if "b < length h3" for b
  proof -
    from that st have "b = a \<or> b = length h \<or> (b < length h \<and> b \<noteq> a)" by auto
    then show ?thesis
    proof (elim disjE)
      assume "b = a"
      with st ca show ?thesis by (simp add: capacity_ok_next)
    next
      assume "b = length h"
      with st capacity_ok_nonneg [OF ca] show ?thesis by (simp add: Chunk_capacity_ok)
    next
      assume "b < length h \<and> b \<noteq> a"
      with st assms show ?thesis by (simp add: capacity_invariant_nth)
    qed
  qed
  then show ?thesis using sp by (simp add: capacity_invariant_nth)
qed

lemma extend_capacity_invariant:
  assumes "capacity_invariant h" "a < length h"
  shows "capacity_invariant (snd (extend h a buf n s l))"
proof -
  obtain r h' where e: "extend h a buf n s l = (r, h')" by (cases "extend h a buf n s l")
  from assms have ca: "capacity_ok (h ! a)" by (simp add: capacity_invariant_nth)
  note fr = extend_frame [OF e assms(2)]
  note cp = extend_capacity [OF e assms(2) ca]
  have "capacity_ok (h' ! b)" if "b < length h'" for b
  proof -
    from that have "b = a \<or> length h \<le> b \<or> (b < length h \<and> b \<noteq> a)" by auto
    then show ?thesis
    proof (elim disjE)
      assume "b = a"
      with cp show ?thesis by simp
    next
      assume "length h \<le> b"
      with cp that show ?thesis by simp
    next
      assume "b < length h \<and> b \<noteq> a"
      with fr assms show ?thesis by (simp add: capacity_invariant_nth)
    qed
  qed
  then show ?thesis using e by (simp add: capacity_invariant_nth)
qed

lemma update_headers_invalid:
  "n \<le> 0 \<or> nb mod n \<noteq> 0 \<Longrightarrow> update_headers h a nb n s = (Inl InvalidBatchError, h)"
  by (auto simp: update_headers_def validate_incoming_buffer_def)

lemma update_headers_valid:
  "\<not> (n \<le> 0 \<or> nb mod n \<noteq> 0) \<Longrightarrow> update_headers h a nb n s = (r, h1) \<Longrightarrow>
     r \<noteq> Inl InvalidBatchError"
  by (auto simp: update_headers_def validate_incoming_buffer_def add_shape_def
      add_byte_position_def Let_def split: sum.splits if_splits)

lemma extend_sealed:
  "next_chunk (h ! a) \<noteq> None \<Longrightarrow> extend h a buf n s l = (Inl SealedChunkError, h)"
  by (subst extend.simps) simp

lemma extend_next_kept:
  assumes "a < length h" "b < length h" "next_chunk (h ! b) \<noteq> None"
  shows "next_chunk (snd (extend h a buf n s l) ! b) = next_chunk (h ! b)"
proof (cases "b = a")
  case True
  with assms show ?thesis by (simp add: extend_sealed)
next
  case False
  obtain r h' where e: "extend h a buf n s l = (r, h')" by (cases "extend h a buf n s l")
  from extend_frame [OF e assms(1)] False assms(2) e show ?thesis by simp
qed

lemma update_headers_next_kept:
  "next_chunk (snd (update_headers h a nb n s) ! b) = next_chunk (h ! b)"
proof -
  obtain r h1 where u: "update_headers h a nb n s = (r, h1)" by (cases "update_headers h a nb n s")
  from update_headers_store(2) [OF u, of b] update_headers_cell(4) [OF u] u show ?thesis
    by (cases "b = a") simp_all
qed

lemma fill_next_kept:
  "next_chunk (snd (fill h a buf) ! b) = next_chunk (h ! b)"
proof -
  obtain r h2 where f: "fill h a buf = (r, h2)" by (cases "fill h a buf")
  from fill_store(2) [OF f, of b] fill_store(5) [OF f] f show ?thesis
    by (cases "b = a") simp_all
qed

lemma spawn_child_chunk_next_kept:
  "b < length h \<Longrightarrow> next_chunk (h ! b) \<noteq> None \<Longrightarrow>
     next_chunk (snd (spawn_child_chunk h a) ! b) = next_chunk (h ! b)"
  by (auto simp: spawn_child_chunk_def Let_def nth_update_cases nth_append)

lemma extend_spawned_capacity:
  assumes "a < length h" "extend h a buf n s l = (Inr spawned, h')" "k \<in> set spawned"
  shows "length h \<le> k \<and> k < length h' \<and> max_data_bytes (h' ! k) = max_data_bytes (h ! a)"
proof -
  from extend_spawned [OF assms(2,1)] assms(3) have k: "length h \<le> k" "k < length h'" by simp_all
  with extend_children [OF assms(2,1)] show ?thesis by simp
qed

lemma extend_no_space:
  "next_chunk (h ! self) = None \<Longrightarrow> \<not> has_space (h ! self) \<Longrightarrow>
     extend h self buf n s l = (Inl NoSpaceError, h)"
  by (subst extend.simps) simp

lemma extend_calls_no_space:
  "next_chunk (h ! self) = None \<Longrightarrow> \<not> has_space (h ! self) \<Longrightarrow> extend_calls h self calls = h"
  by (induction calls) (auto simp: extend_no_space)

subsection \<open>Where a call returns, and where it keeps every byte\<close>

text \<open>
  On an unsealed chunk with space whose target is the one \<^verbatim>\<open>__init__\<close> set, a
  continuation, or a new batch with a valid sample count and a shape that is not
  empty, returns: no step raises, and the recursion ends. When the two chunk counts
  of \<^verbatim>\<open>_fill\<close> agree on the receiving chunk (they always do on an empty one, so on
  every spawned child), the payloads of the chunk and of the returned chunks are the
  old payload followed by the buffer.
\<close>

lemma fill_copies:
  "fill h a buf = (Inr p, h2) \<Longrightarrow> a < length h \<Longrightarrow> counts_agree (h ! a) buf \<Longrightarrow>
     data (h2 ! a) = data (h ! a) @ py_slice_to buf p"
  by (auto simp: fill_def Let_def counts_agree_def split: sum.splits if_splits)

lemma counts_agree_cong:
  "data c' = data c \<Longrightarrow> max_data_bytes c' = max_data_bytes c \<Longrightarrow>
     counts_agree c' buf = counts_agree c buf"
  by (simp add: counts_agree_def min_chunks_required_for_num_bytes_def num_data_bytes_def)

lemma counts_agree_Chunk: "counts_agree (Chunk m) buf"
  by (simp add: counts_agree_def num_data_bytes_def Chunk_def)

lemma stored_bytes_Cons:
  "stored_bytes h a (k # ks) = data (h ! a) @ stored_bytes h k ks"
  by (simp add: stored_bytes_def)

lemma extend_keeps_bytes:
  "extend h a buf n s l = (Inr spawned, h') \<Longrightarrow> a < length h \<Longrightarrow> capacity_ok (h ! a) \<Longrightarrow>
     counts_agree (h ! a) buf \<Longrightarrow> stored_bytes h' a spawned = data (h ! a) @ buf"
proof (induction h a buf n s l arbitrary: spawned h' rule: extend_induct)
  case (call h a buf n s l)
  from call.prems(1) show ?case
  proof (cases rule: extend_cases)
    case (all_stored h1 p)
    note hd = headers_done_store [OF all_stored(3)]
    have a1: "a < length h1" using hd call.prems(2) by simp
    have ag: "counts_agree (h1 ! a) buf"
      using call.prems(4) hd by (simp add: counts_agree_cong [of "h1 ! a" "h ! a"])
    from fill_processed [OF all_stored(4)] all_stored(5)
    have "p = int (length buf)" by simp
    with fill_copies [OF all_stored(4) a1 ag] hd all_stored(6)
    show ?thesis by (simp add: stored_bytes_def py_slice_to_def)
  next
    case (forwarded h1 p h2 child h3 r4)
    note hd = headers_done_store [OF forwarded(3)]
    note fw = forwarded_store [OF call.prems(2) forwarded(3,4,6)]
    have a1: "a < length h1" using hd call.prems(2) by simp
    have ag: "counts_agree (h1 ! a) buf"
      using call.prems(4) hd by (simp add: counts_agree_cong [of "h1 ! a" "h ! a"])
    have c3: "child < length h3" using fw by simp
    from forwarded(8) obtain children where r4: "r4 = Inr children" "spawned = child # children"
      by (auto split: sum.splits)
    have ck: "capacity_ok (h3 ! child)"
      using fw(3) capacity_ok_nonneg [OF call.prems(3)] by (simp add: Chunk_capacity_ok)
    have cag: "counts_agree (h3 ! child) (py_slice_from buf p)"
      using fw(3) by (simp add: counts_agree_Chunk)
    from call.IH [OF forwarded(1-6) forwarded(7) [unfolded r4(1)] c3 ck cag]
    have ih: "stored_bytes h' child children = py_slice_from buf p"
      using fw(3) by (simp add: Chunk_def)
    have "0 \<le> p"
      using fill_processed [OF forwarded(4)] call.prems(3) hd
      by (simp add: capacity_ok_def num_data_bytes_def)
    then have split: "py_slice_to buf p @ py_slice_from buf p = buf"
      by (simp add: py_slice_to_def py_slice_from_def)
    have "a \<noteq> child" "a < length h3" using fw call.prems(2) by simp_all
    with extend_frame [OF forwarded(7) c3] have "h' ! a = h3 ! a" by simp
    then have "data (h' ! a) = data (h ! a) @ py_slice_to buf p"
      using fw(5) fill_copies [OF forwarded(4) a1 ag] hd by simp
    with ih split r4 show ?thesis by (simp add: stored_bytes_Cons)
  qed simp_all
qed

lemma update_headers_valid_returns:
  "0 < n \<Longrightarrow> nb mod n = 0 \<Longrightarrow> s \<noteq> [] \<Longrightarrow> \<exists>h1. update_headers h a nb n s = (Inr (), h1)"
  by (simp add: update_headers_def validate_incoming_buffer_def add_shape_def
      add_byte_position_def Let_def)

lemma fill_returns:
  "max_data_bytes (h ! a) \<noteq> 0 \<Longrightarrow> \<exists>p h2. fill h a buf = (Inr p, h2)"
  by (simp add: fill_def min_chunks_required_for_num_bytes_def Let_def)

lemma has_space_capacity: "target_ok c \<Longrightarrow> has_space c \<Longrightarrow> 2 \<le> max_data_bytes c"
  by (simp add: target_ok_def has_space_def num_data_bytes_def)

lemma extend_returns:
  "a < length h \<Longrightarrow> next_chunk (h ! a) = None \<Longrightarrow> has_space (h ! a) \<Longrightarrow> target_ok (h ! a) \<Longrightarrow>
     l \<or> (0 < n \<and> int (length buf) mod n = 0 \<and> s \<noteq> []) \<Longrightarrow>
     \<exists>spawned h'. extend h a buf n s l = (Inr spawned, h')"
proof (induction h a buf n s l rule: extend_induct)
  case (call h a buf n s l)
  obtain r h' where e: "extend h a buf n s l = (r, h')" by (cases "extend h a buf n s l")
  have m: "2 \<le> max_data_bytes (h ! a)" using call.prems by (simp add: has_space_capacity)
  from e show ?case
  proof (cases rule: extend_cases)
    case sealed
    with call.prems show ?thesis by simp
  next
    case no_space
    with call.prems show ?thesis by simp
  next
    case (header_error e)
    with call.prems(5) update_headers_valid_returns [of n "int (length buf)" s h a]
    show ?thesis by auto
  next
    case (fill_error h1 e)
    with fill_returns [of h1 a buf] headers_done_store(4) [OF fill_error(3)] m
    show ?thesis by auto
  next
    case (all_stored h1 p)
    with e show ?thesis by simp
  next
    case (spawn_error h1 p h2 e)
    with spawn_child_chunk_error [OF spawn_error(6)] fill_store(5) [OF spawn_error(4)]
      headers_done_store(6) [OF spawn_error(3)]
    show ?thesis by simp
  next
    case (forwarded h1 p h2 child h3 r4)
    note fw = forwarded_store [OF call.prems(1) forwarded(3,4,6)]
    have c3: "child < length h3" using fw by simp
    have "next_chunk (h3 ! child) = None" "has_space (h3 ! child)" "target_ok (h3 ! child)"
      using fw(3) m by (simp_all add: Chunk_def has_space_def num_data_bytes_def target_ok_def)
    from call.IH [OF forwarded(1-6) c3 this] forwarded(7)
    obtain children where "r4 = Inr children" by auto
    with forwarded(8) e show ?thesis by simp
  qed
qed

lemmas chunk_defs = Chunk_def has_space_def num_data_bytes_def update_headers_def
  validate_incoming_buffer_def add_shape_def add_byte_position_def fill_def
  min_chunks_required_for_num_bytes_def Let_def spawn_child_chunk_def py_slice_from_def
  py_slice_to_def ShapeEncoder_def BytePositionsEncoder_def

section \<open>The claims\<close>

text \<open>
  Claim C1, no data loss, at the input where the code breaks it (Scenario B of the
  spec): capacity 100, a chunk holding 40 bytes, a buffer of the 80 bytes
  \<open>0, \<dots>, 79\<close>, one sample. \<^verbatim>\<open>_fill\<close> copies nothing, since one chunk would do for 80
  bytes and two are needed for 120, but returns the 60 bytes that would fit, and
  \<^verbatim>\<open>extend\<close> forwards \<^verbatim>\<open>incoming_buffer[60:]\<close>. The chunk and the child it returns
  hold the old 40 bytes and the last 20 of the buffer: bytes 0 to 59 are in no chunk.
  Where the two counts agree, as on every empty chunk, no byte is lost (lemma
  \<open>extend_keeps_bytes\<close>).
\<close>

theorem extend_drops_bytes:
  "extend [(Chunk 100)\<lparr>data := replicate 40 255\<rparr>] 0 (bytes_upto 80) 1 [80] False
     = (Inr [1],
        [\<lparr> index_shape_encoder = [([80], 1)], index_byte_range_encoder = [(80, 1)],
            max_data_bytes = 100, min_data_bytes_target = 50,
            data = replicate 40 255, next_chunk = Some 1 \<rparr>,
         \<lparr> index_shape_encoder = [], index_byte_range_encoder = [],
            max_data_bytes = 100, min_data_bytes_target = 50,
            data = drop 60 (bytes_upto 80), next_chunk = None \<rparr>])
   \<and> stored_bytes (snd (extend [(Chunk 100)\<lparr>data := replicate 40 255\<rparr>] 0 (bytes_upto 80) 1 [80] False)) 0 [1]
       = replicate 40 255 @ drop 60 (bytes_upto 80)
   \<and> stored_bytes (snd (extend [(Chunk 100)\<lparr>data := replicate 40 255\<rparr>] 0 (bytes_upto 80) 1 [80] False)) 0 [1]
       \<noteq> replicate 40 255 @ bytes_upto 80
   \<and> stored_bytes (snd (extend [(Chunk 100)\<lparr>data := replicate 40 255\<rparr>] 0 (bytes_upto 80) 1 [80] False)) 0 [1]
       \<noteq> bytes_upto 80"
  by code_simp

text \<open>
  Claim C2, the fragmentation-avoidance policy, at its own example. The two chunk
  counts differ (1 and 2), \<^verbatim>\<open>_fill\<close> leaves the store as it is and reports 60 bytes
  as processed; the chunk keeps its 40 bytes, and the one spawned child holds the
  last 20 bytes of the buffer, not all 80.
\<close>

theorem mismatch_forwards_a_suffix:
  "min_chunks_required_for_num_bytes ((Chunk 100)\<lparr>data := replicate 40 255\<rparr>) 80 = Inr 1
   \<and> min_chunks_required_for_num_bytes ((Chunk 100)\<lparr>data := replicate 40 255\<rparr>) (80 + 40) = Inr 2
   \<and> fill [(Chunk 100)\<lparr>data := replicate 40 255\<rparr>] 0 (bytes_upto 80)
       = (Inr 60, [(Chunk 100)\<lparr>data := replicate 40 255\<rparr>])
   \<and> fst (extend [(Chunk 100)\<lparr>data := replicate 40 255\<rparr>] 0 (bytes_upto 80) 1 [80] False) = Inr [1]
   \<and> data (snd (extend [(Chunk 100)\<lparr>data := replicate 40 255\<rparr>] 0 (bytes_upto 80) 1 [80] False) ! 0)
       = replicate 40 255
   \<and> data (snd (extend [(Chunk 100)\<lparr>data := replicate 40 255\<rparr>] 0 (bytes_upto 80) 1 [80] False) ! 1)
       = drop 60 (bytes_upto 80)
   \<and> length (data (snd (extend [(Chunk 100)\<lparr>data := replicate 40 255\<rparr>] 0 (bytes_upto 80) 1 [80] False) ! 1))
       = 20"
  by code_simp

text \<open>
  Claim C3, Scenario C. On an empty chunk of capacity 100, anywhere in a store, a
  buffer of 250 bytes with 5 samples of shape (10, 10) is stored as its first 100
  bytes in the chunk, the next 100 in a first child and the last 50 in a second
  child; the call returns the two children in this order, the links run from the
  chunk to the first child to the second, whose link is unset; the chunk carries the
  one shape run ((10, 10), 5) and the one byte-range run (50, 5), and the indexes of
  both children are empty. No other chunk of the store changes.
\<close>

theorem scenario_C:
  "length buf = 250 \<Longrightarrow> self < length h \<Longrightarrow> h ! self = Chunk 100 \<Longrightarrow>
     extend h self buf 5 [10, 10] False =
       (Inr [length h, Suc (length h)],
        h[self := \<lparr> index_shape_encoder = [([10, 10], 5)],
                     index_byte_range_encoder = [(50, 5)],
                     max_data_bytes = 100, min_data_bytes_target = 50,
                     data = take 100 buf, next_chunk = Some (length h) \<rparr>]
        @ [\<lparr> index_shape_encoder = [], index_byte_range_encoder = [],
              max_data_bytes = 100, min_data_bytes_target = 50,
              data = take 100 (drop 100 buf), next_chunk = Some (Suc (length h)) \<rparr>,
           \<lparr> index_shape_encoder = [], index_byte_range_encoder = [],
              max_data_bytes = 100, min_data_bytes_target = 50,
              data = drop 200 buf, next_chunk = None \<rparr>])
     \<and> length (take 100 buf) = 100
     \<and> length (take 100 (drop 100 buf)) = 100
     \<and> length (drop 200 buf) = 50"
  apply (subst extend.simps)
  apply (simp add: chunk_defs)
  apply (subst extend.simps)
  apply (simp add: chunk_defs nth_append list_update_append)
  apply (subst extend.simps)
  apply (simp add: chunk_defs nth_append list_update_append)
  done

theorem scenario_C_witness:
  "length (bytes_upto 250) = 250 \<and> 0 < length [Chunk 100] \<and> [Chunk 100] ! 0 = Chunk 100
   \<and> extend [Chunk 100] 0 (bytes_upto 250) 5 [10, 10] False =
       (Inr [1, 2],
        [\<lparr> index_shape_encoder = [([10, 10], 5)],
                     index_byte_range_encoder = [(50, 5)],
                     max_data_bytes = 100, min_data_bytes_target = 50,
                     data = take 100 (bytes_upto 250), next_chunk = Some 1 \<rparr>,
         \<lparr> index_shape_encoder = [], index_byte_range_encoder = [],
              max_data_bytes = 100, min_data_bytes_target = 50,
              data = take 100 (drop 100 (bytes_upto 250)), next_chunk = Some 2 \<rparr>,
           \<lparr> index_shape_encoder = [], index_byte_range_encoder = [],
              max_data_bytes = 100, min_data_bytes_target = 50,
              data = drop 200 (bytes_upto 250), next_chunk = None \<rparr>])"
proof -
  have len: "length (bytes_upto 250) = 250" by (simp add: bytes_upto_def)
  have a: "0 < length [Chunk 100]" by simp
  have c: "[Chunk 100] ! 0 = Chunk 100" by simp
  from scenario_C [OF len a c] len a c show ?thesis by simp
qed

text \<open>
  Claim C4, the capacity invariant, as amended. \<^verbatim>\<open>__init__\<close> takes any integer as
  the capacity, so a new chunk satisfies \<open>len(data) \<le> max_data_bytes\<close> when the
  capacity is not negative (the counterexample is a chunk built with \<open>- 1\<close>). From a
  store in which every chunk satisfies the bound, every step of a call keeps it for
  every chunk of the store, the spawned ones among them: the header update, the fill,
  the spawn, and the call of \<^verbatim>\<open>extend\<close> as a whole, whatever it returns or raises.
  The payload is written by \<^verbatim>\<open>_fill\<close> only, so these are all the points of a call.
\<close>

theorem capacity_invariant_preserved:
  "(0 \<le> m \<longrightarrow> capacity_ok (Chunk m))
   \<and> (a < length h \<and> capacity_invariant h \<longrightarrow>
         capacity_invariant (snd (update_headers h a nb n s))
       \<and> capacity_invariant (snd (fill h a buf))
       \<and> capacity_invariant (snd (spawn_child_chunk h a))
       \<and> capacity_invariant (snd (extend h a buf n s l)))"
  by (simp add: Chunk_capacity_ok update_headers_capacity fill_capacity_invariant
      spawn_child_chunk_capacity extend_capacity_invariant)

theorem capacity_invariant_preserved_witness:
  "(0 :: int) \<le> 100 \<and> capacity_ok (Chunk 100)
   \<and> 0 < length [(Chunk 100)\<lparr>data := replicate 40 255\<rparr>]
   \<and> capacity_invariant [(Chunk 100)\<lparr>data := replicate 40 255\<rparr>]
   \<and> capacity_invariant (snd (update_headers [(Chunk 100)\<lparr>data := replicate 40 255\<rparr>] 0 250 5 [10, 10]))
   \<and> capacity_invariant (snd (fill [(Chunk 100)\<lparr>data := replicate 40 255\<rparr>] 0 (bytes_upto 250)))
   \<and> capacity_invariant (snd (spawn_child_chunk [(Chunk 100)\<lparr>data := replicate 40 255\<rparr>] 0))
   \<and> capacity_invariant (snd (extend [(Chunk 100)\<lparr>data := replicate 40 255\<rparr>] 0 (bytes_upto 250) 5 [10, 10] False))"
proof -
  let ?h = "[(Chunk 100)\<lparr>data := replicate 40 255\<rparr>]"
  have m: "(0 :: int) \<le> 100" by simp
  have a: "0 < length ?h" by simp
  have inv: "capacity_invariant ?h"
    by (simp add: capacity_invariant_def capacity_ok_def num_data_bytes_def Chunk_def)
  from capacity_invariant_preserved [of 100 0 ?h 250 5 "[10, 10]" "bytes_upto 250" False] m a inv
  show ?thesis by blast
qed

theorem capacity_invariant_counterexample:
  "\<not> num_data_bytes (Chunk (- 1)) \<le> max_data_bytes (Chunk (- 1))"
  by (simp add: Chunk_def num_data_bytes_def)

text \<open>
  Claim C5, the round trip, as amended. \<^verbatim>\<open>Chunk.frombuffer\<close> returns no chunk:
  whatever \<^verbatim>\<open>numpy.savez\<close> wrote and whatever \<^verbatim>\<open>Cachable.frombuffer\<close> does with it,
  the call ends in an exception, \<^verbatim>\<open>NotImplementedError\<close> when the superclass call
  returned. The counterexample is a container format and a superclass loader that
  round-trip the chunk by themselves.
\<close>

theorem frombuffer_never_returns:
  "frombuffer super_frombuffer (tobytes savez c) \<noteq> Inr c'"
  by (simp add: frombuffer_def split: sum.splits)

theorem round_trip_counterexample:
  "frombuffer payload_frombuffer (tobytes payload_savez ((Chunk 100)\<lparr>data := [1, 2, 3]\<rparr>))
     = Inl NotImplementedError"
  by (simp add: frombuffer_def payload_frombuffer_def)

text \<open>
  Claim C6, the seal invariant. A chunk whose \<^verbatim>\<open>next_chunk\<close> is set refuses every
  \<^verbatim>\<open>extend\<close> call, a continuation or not, with the error of the sealed chunk, and the
  store is returned as it was: the payload, the two indexes and the link of the chunk,
  and every other chunk, are unchanged.
\<close>

theorem sealed_chunk_refuses_extend:
  "next_chunk (h ! self) \<noteq> None \<Longrightarrow>
     extend h self buf n s leftover = (Inl SealedChunkError, h)"
  by (subst extend.simps) simp

theorem sealed_chunk_refuses_extend_witness:
  "next_chunk ([(Chunk 100)\<lparr>data := [1, 2], next_chunk := Some 1\<rparr>, Chunk 100] ! 0) \<noteq> None
   \<and> extend [(Chunk 100)\<lparr>data := [1, 2], next_chunk := Some 1\<rparr>, Chunk 100] 0 [7, 8, 9] 1 [3] True
       = (Inl SealedChunkError, [(Chunk 100)\<lparr>data := [1, 2], next_chunk := Some 1\<rparr>, Chunk 100])"
proof -
  have sealed: "next_chunk ([(Chunk 100)\<lparr>data := [1, 2], next_chunk := Some 1\<rparr>, Chunk 100] ! 0) \<noteq> None"
    by simp
  from sealed_chunk_refuses_extend [OF sealed] sealed show ?thesis
    by blast
qed

text \<open>
  Claim C7, the soft threshold. With the target \<^verbatim>\<open>__init__\<close> sets (half the capacity,
  rounded down), \<^verbatim>\<open>has_space\<close> is \<open>len(data) < max_data_bytes // 2\<close>, and a call
  that is not a continuation, on an unsealed chunk whose payload has reached that
  target, fails with the no-space error and returns the store as it was. A payload of
  at least \<open>max_data_bytes / 2\<close> as a fraction has reached the rounded target too.
\<close>

theorem soft_threshold_gating:
  "min_data_bytes_target (h ! self) = max_data_bytes (h ! self) div 2 \<Longrightarrow>
     (has_space (h ! self) \<longleftrightarrow> num_data_bytes (h ! self) < max_data_bytes (h ! self) div 2)
     \<and> (next_chunk (h ! self) = None
          \<and> max_data_bytes (h ! self) div 2 \<le> num_data_bytes (h ! self)
        \<longrightarrow> extend h self buf n s False = (Inl NoSpaceError, h))"
  by (subst extend.simps) (simp add: has_space_def)

theorem soft_threshold_gating_witness:
  "min_data_bytes_target ([(Chunk 100)\<lparr>data := replicate 50 0\<rparr>] ! 0)
     = max_data_bytes ([(Chunk 100)\<lparr>data := replicate 50 0\<rparr>] ! 0) div 2
   \<and> next_chunk ([(Chunk 100)\<lparr>data := replicate 50 0\<rparr>] ! 0) = None
   \<and> max_data_bytes ([(Chunk 100)\<lparr>data := replicate 50 0\<rparr>] ! 0) div 2
       \<le> num_data_bytes ([(Chunk 100)\<lparr>data := replicate 50 0\<rparr>] ! 0)
   \<and> extend [(Chunk 100)\<lparr>data := replicate 50 0\<rparr>] 0 [1, 2, 3] 1 [3] False
       = (Inl NoSpaceError, [(Chunk 100)\<lparr>data := replicate 50 0\<rparr>])"
proof -
  let ?h = "[(Chunk 100)\<lparr>data := replicate 50 0\<rparr>]"
  have target: "min_data_bytes_target (?h ! 0) = max_data_bytes (?h ! 0) div 2"
    by (simp add: Chunk_def)
  have unsealed: "next_chunk (?h ! 0) = None"
    by (simp add: Chunk_def)
  have reached: "max_data_bytes (?h ! 0) div 2 \<le> num_data_bytes (?h ! 0)"
    by (simp add: Chunk_def num_data_bytes_def)
  from soft_threshold_gating [OF target, of "[1, 2, 3]" 1 "[3]"] unsealed reached
  have "extend ?h 0 [1, 2, 3] 1 [3] False = (Inl NoSpaceError, ?h)"
    by blast
  with target unsealed reached show ?thesis
    by blast
qed

text \<open>
  Claim C8, batch validation. A call that is not a continuation, on an unsealed chunk
  with space, ends in the invalid-batch error exactly when \<open>num_samples \<le> 0\<close> or the
  buffer length is not a multiple of \<open>num_samples\<close>; and then the store is returned
  as it was, with no header run appended and no byte copied.
\<close>

theorem batch_validation:
  "next_chunk (h ! self) = None \<Longrightarrow> has_space (h ! self) \<Longrightarrow>
     (fst (extend h self buf n s False) = Inl InvalidBatchError
        \<longleftrightarrow> n \<le> 0 \<or> int (length buf) mod n \<noteq> 0)
     \<and> (n \<le> 0 \<or> int (length buf) mod n \<noteq> 0
          \<longrightarrow> extend h self buf n s False = (Inl InvalidBatchError, h))"
proof -
  assume unsealed: "next_chunk (h ! self) = None" and space: "has_space (h ! self)"
  show ?thesis
  proof (cases "n \<le> 0 \<or> int (length buf) mod n \<noteq> 0")
    case True
    from update_headers_invalid [OF True]
    have "extend h self buf n s False = (Inl InvalidBatchError, h)"
      using unsealed space by (subst extend.simps) simp
    with True show ?thesis by simp
  next
    case False
    obtain r h' where e: "extend h self buf n s False = (r, h')"
      by (cases "extend h self buf n s False")
    from e have "r \<noteq> Inl InvalidBatchError"
    proof (cases rule: extend_cases)
      case sealed
      then show ?thesis by simp
    next
      case no_space
      then show ?thesis by simp
    next
      case (header_error e)
      with update_headers_valid [OF False] show ?thesis by blast
    next
      case (fill_error h1 e)
      with fill_store(8) [OF fill_error(4)] show ?thesis by simp
    next
      case (all_stored h1 p)
      then show ?thesis by simp
    next
      case (spawn_error h1 p h2 e)
      with spawn_child_chunk_error [OF spawn_error(6)] show ?thesis by simp
    next
      case (forwarded h1 p h2 child h3 r4)
      with extend_leftover_error [OF forwarded(7)] show ?thesis
        by (auto split: sum.splits)
    qed
    with e False show ?thesis by simp
  qed
qed

theorem batch_validation_witness:
  "next_chunk ([Chunk 100] ! 0) = None \<and> has_space ([Chunk 100] ! 0)
   \<and> ((3 :: int) \<le> 0 \<or> int (length (bytes_upto 10)) mod 3 \<noteq> 0)
   \<and> fst (extend [Chunk 100] 0 (bytes_upto 10) 3 [10] False) = Inl InvalidBatchError
   \<and> extend [Chunk 100] 0 (bytes_upto 10) 3 [10] False = (Inl InvalidBatchError, [Chunk 100])"
proof -
  have unsealed: "next_chunk ([Chunk 100] ! 0) = None" by (simp add: Chunk_def)
  have space: "has_space ([Chunk 100] ! 0)"
    by (simp add: Chunk_def has_space_def num_data_bytes_def)
  have bad: "(3 :: int) \<le> 0 \<or> int (length (bytes_upto 10)) mod 3 \<noteq> 0"
    by (simp add: bytes_upto_def)
  from batch_validation [OF unsealed space, of "bytes_upto 10" 3 "[10]"] unsealed space bad
  show ?thesis by blast
qed

text \<open>
  Claim C9, the structure of the chain. \<^verbatim>\<open>_spawn_child_chunk\<close> fails on a chunk
  that has a successor and leaves the store as it was; otherwise the child it adds
  is \<open>Chunk (max_data_bytes parent)\<close>, with no payload, empty indexes and the
  parent's capacity, and only the parent's link changes. A link that is set, on any
  chunk of the store, is the same after the header update, the fill, the spawn and a
  whole call of \<^verbatim>\<open>extend\<close> on any chunk. Every chunk a call of \<^verbatim>\<open>extend\<close> returns
  has the capacity of the chunk the call was made on.
\<close>

theorem chain_structure:
  "a < length h \<Longrightarrow>
     spawn_child_chunk h a =
       (if next_chunk (h ! a) \<noteq> None then (Inl AlreadySpawnedError, h)
        else (Inr (length h),
              h[a := (h ! a)\<lparr>next_chunk := Some (length h)\<rparr>] @ [Chunk (max_data_bytes (h ! a))]))
     \<and> (b < length h \<and> next_chunk (h ! b) \<noteq> None \<longrightarrow>
           next_chunk (snd (update_headers h a nb n s) ! b) = next_chunk (h ! b)
         \<and> next_chunk (snd (fill h a buf) ! b) = next_chunk (h ! b)
         \<and> next_chunk (snd (spawn_child_chunk h a) ! b) = next_chunk (h ! b)
         \<and> next_chunk (snd (extend h a buf n s l) ! b) = next_chunk (h ! b))
     \<and> (fst (extend h a buf n s l) = Inr spawned \<longrightarrow>
           spawned_with_capacity (snd (extend h a buf n s l)) spawned (max_data_bytes (h ! a)))
     \<and> data (Chunk m) = [] \<and> index_shape_encoder (Chunk m) = []
     \<and> index_byte_range_encoder (Chunk m) = [] \<and> next_chunk (Chunk m) = None
     \<and> max_data_bytes (Chunk m) = m"
proof -
  assume a: "a < length h"
  have sp: "spawn_child_chunk h a =
       (if next_chunk (h ! a) \<noteq> None then (Inl AlreadySpawnedError, h)
        else (Inr (length h),
              h[a := (h ! a)\<lparr>next_chunk := Some (length h)\<rparr>] @ [Chunk (max_data_bytes (h ! a))]))"
    using a by (simp add: spawn_child_chunk_def Let_def list_update_append nth_append)
  have kept: "b < length h \<and> next_chunk (h ! b) \<noteq> None \<longrightarrow>
           next_chunk (snd (update_headers h a nb n s) ! b) = next_chunk (h ! b)
         \<and> next_chunk (snd (fill h a buf) ! b) = next_chunk (h ! b)
         \<and> next_chunk (snd (spawn_child_chunk h a) ! b) = next_chunk (h ! b)
         \<and> next_chunk (snd (extend h a buf n s l) ! b) = next_chunk (h ! b)"
    using a by (simp add: update_headers_next_kept fill_next_kept spawn_child_chunk_next_kept
        extend_next_kept)
  have cap: "fst (extend h a buf n s l) = Inr spawned \<longrightarrow>
           spawned_with_capacity (snd (extend h a buf n s l)) spawned (max_data_bytes (h ! a))"
  proof
    assume "fst (extend h a buf n s l) = Inr spawned"
    then obtain h' where e: "extend h a buf n s l = (Inr spawned, h')"
      by (cases "extend h a buf n s l") simp
    from extend_spawned_capacity [OF a e] e
    show "spawned_with_capacity (snd (extend h a buf n s l)) spawned (max_data_bytes (h ! a))"
      by (simp add: spawned_with_capacity_def list_all_iff)
  qed
  have empty: "data (Chunk m) = [] \<and> index_shape_encoder (Chunk m) = []
     \<and> index_byte_range_encoder (Chunk m) = [] \<and> next_chunk (Chunk m) = None
     \<and> max_data_bytes (Chunk m) = m"
    by (simp add: Chunk_def ShapeEncoder_def BytePositionsEncoder_def)
  from sp kept cap empty show ?thesis by blast
qed

theorem chain_structure_witness:
  "1 < length [(Chunk 100)\<lparr>data := bytes_upto 30, next_chunk := Some 1\<rparr>, Chunk 100]
   \<and> 0 < length [(Chunk 100)\<lparr>data := bytes_upto 30, next_chunk := Some 1\<rparr>, Chunk 100]
   \<and> next_chunk ([(Chunk 100)\<lparr>data := bytes_upto 30, next_chunk := Some 1\<rparr>, Chunk 100] ! 0) \<noteq> None
   \<and> fst (extend [(Chunk 100)\<lparr>data := bytes_upto 30, next_chunk := Some 1\<rparr>, Chunk 100] 1
              (bytes_upto 150) 3 [50] False) = Inr [2]
   \<and> next_chunk (snd (extend [(Chunk 100)\<lparr>data := bytes_upto 30, next_chunk := Some 1\<rparr>, Chunk 100] 1
              (bytes_upto 150) 3 [50] False) ! 0)
       = next_chunk ([(Chunk 100)\<lparr>data := bytes_upto 30, next_chunk := Some 1\<rparr>, Chunk 100] ! 0)
   \<and> spawned_with_capacity
         (snd (extend [(Chunk 100)\<lparr>data := bytes_upto 30, next_chunk := Some 1\<rparr>, Chunk 100] 1
                 (bytes_upto 150) 3 [50] False))
         [2]
         (max_data_bytes ([(Chunk 100)\<lparr>data := bytes_upto 30, next_chunk := Some 1\<rparr>, Chunk 100] ! 1))"
proof -
  let ?h = "[(Chunk 100)\<lparr>data := bytes_upto 30, next_chunk := Some 1\<rparr>, Chunk 100]"
  have a: "1 < length ?h" by simp
  have b: "0 < length ?h" by simp
  have set: "next_chunk (?h ! 0) \<noteq> None" by simp
  have ret: "fst (extend ?h 1 (bytes_upto 150) 3 [50] False) = Inr [2]" by code_simp
  from chain_structure [OF a, where b = 0 and nb = 150 and n = 3 and s = "[50]"
      and buf = "bytes_upto 150" and l = False and spawned = "[2]" and m = 100] a b set ret
  show ?thesis by blast
qed

text \<open>
  Claim C10, the degenerate capacities, as amended. For a capacity of 0 or 1 the
  target is 0; for a negative capacity it is negative (\<open>- 1 // 2 = - 1\<close> in Python),
  so it is not 0 for every capacity up to 1 (the counterexample), but it is never
  positive. A chunk built with such a capacity has no space, every \<^verbatim>\<open>extend\<close> call
  on it fails with the no-space error and leaves the store as it was, and so does
  every sequence of calls: the chunk never stores a byte.
\<close>

theorem degenerate_capacity:
  "m \<le> 1 \<Longrightarrow>
     min_data_bytes_target (Chunk m) \<le> 0
     \<and> (0 \<le> m \<longrightarrow> min_data_bytes_target (Chunk m) = 0)
     \<and> \<not> has_space (Chunk m)
     \<and> (h ! self = Chunk m \<longrightarrow>
           extend h self buf n s leftover = (Inl NoSpaceError, h)
           \<and> extend_calls h self calls = h)"
proof -
  assume m: "m \<le> 1"
  then have t: "min_data_bytes_target (Chunk m) \<le> 0" by (simp add: Chunk_def)
  have z: "0 \<le> m \<longrightarrow> min_data_bytes_target (Chunk m) = 0" using m by (simp add: Chunk_def)
  have ns: "\<not> has_space (Chunk m)" using t by (simp add: has_space_def num_data_bytes_def)
  have "next_chunk (Chunk m) = None" by (simp add: Chunk_def)
  with ns have "h ! self = Chunk m \<longrightarrow>
           extend h self buf n s leftover = (Inl NoSpaceError, h)
           \<and> extend_calls h self calls = h"
    by (simp add: extend_no_space extend_calls_no_space)
  with t z ns show ?thesis by blast
qed

theorem degenerate_capacity_witness:
  "(1 :: int) \<le> 1 \<and> (0 :: int) \<le> 1 \<and> min_data_bytes_target (Chunk 1) = 0 \<and> \<not> has_space (Chunk 1)
   \<and> [Chunk 1] ! 0 = Chunk 1
   \<and> extend [Chunk 1] 0 [7] 1 [1] False = (Inl NoSpaceError, [Chunk 1])
   \<and> extend_calls [Chunk 1] 0 [([7], 1, [1]), ([8, 9], 2, [1])] = [Chunk 1]"
proof -
  have m: "(1 :: int) \<le> 1" by simp
  have z: "(0 :: int) \<le> 1" by simp
  have c: "[Chunk 1] ! 0 = Chunk 1" by simp
  from degenerate_capacity [OF m, of "[Chunk 1]" 0 "[7]" 1 "[1]" False "[([7], 1, [1]), ([8, 9], 2, [1])]"] m z c
  show ?thesis by blast
qed

theorem degenerate_capacity_counterexample:
  "(- 1 :: int) \<le> 1 \<and> min_data_bytes_target (Chunk (- 1)) = - 1"
  by (simp add: Chunk_def)

end
